theory Spec2Isabelle
  imports Main "HOL-Library.Sublist"
begin

section \<open>Python strings\<close>

text \<open>
  A Python \<^verbatim>\<open>str\<close> is a sequence of Unicode code points; it is modelled as a list of
  natural numbers. ASCII pieces of the source's literals are written with \<open>ascii\<close>, the
  other characters by their code point (233 is e-acute, 10 is the newline, ...).
\<close>

type_synonym pystr = "nat list"

definition ascii :: "string \<Rightarrow> pystr" where
  "ascii s = map of_char s"

text \<open>
  \<^verbatim>\<open>s.find(sub, start)\<close>: the lowest index at or after \<open>start\<close> where \<open>sub\<close> occurs in
  \<open>s\<close>, and \<open>-1\<close> when there is none. \<open>find_from sub cs i\<close> scans the rest \<open>cs\<close> of the
  string, whose first character has index \<open>i\<close>.
\<close>

fun find_from :: "pystr \<Rightarrow> pystr \<Rightarrow> nat \<Rightarrow> int" where
  "find_from sub [] i = (if sub = [] then int i else - 1)"
| "find_from sub (c # cs) i =
     (if prefix sub (c # cs) then int i else find_from sub cs (Suc i))"

definition str_find :: "pystr \<Rightarrow> pystr \<Rightarrow> int \<Rightarrow> int" where
  "str_find s sub start =
     (let n = int (length s);
          st = (if start < 0 then max 0 (n + start) else start)
      in if n < st then - 1 else find_from sub (drop (nat st) s) (nat st))"

text \<open>\<^verbatim>\<open>sub in s\<close>\<close>

definition str_in :: "pystr \<Rightarrow> pystr \<Rightarrow> bool" where
  "str_in sub s = (str_find s sub 0 \<noteq> - 1)"

text \<open>\<^verbatim>\<open>s[i:j]\<close>, with Python's treatment of negative and too large indices.\<close>

definition slice_index :: "nat \<Rightarrow> int \<Rightarrow> nat" where
  "slice_index n i = (if i < 0 then nat (max 0 (int n + i)) else min (nat i) n)"

definition str_slice :: "pystr \<Rightarrow> int \<Rightarrow> int \<Rightarrow> pystr" where
  "str_slice s i j =
     (let lo = slice_index (length s) i; hi = slice_index (length s) j
      in take (hi - lo) (drop lo s))"

text \<open>
  \<^verbatim>\<open>s.strip()\<close> removes leading and trailing whitespace; \<open>is_space\<close> lists the code
  points that Python's \<^verbatim>\<open>str.isspace\<close> accepts.
\<close>

definition is_space :: "nat \<Rightarrow> bool" where
  "is_space c =
     (List.member [9, 10, 11, 12, 13, 28, 29, 30, 31, 32, 133, 160, 5760,
                   8232, 8233, 8239, 8287, 12288] c
      \<or> (8192 \<le> c \<and> c \<le> 8202))"

definition strip :: "pystr \<Rightarrow> pystr" where
  "strip s = rev (dropWhile is_space (rev (dropWhile is_space s)))"

section \<open>The extraction block (app.py, lines 119 to 126)\<close>

definition fence :: pystr where
  "fence = ascii ''```''"

definition fence_lean :: pystr where
  "fence_lean = ascii ''```lean''"

text \<open>
  The block rewrites \<^verbatim>\<open>generated_proof_code\<close>; the second component tells whether the
  warning of line 126 (badly formatted fences, the raw text is used) was issued.
\<close>

definition extract_block :: "pystr \<Rightarrow> pystr \<times> bool" where
  "extract_block generated_proof_code =
     (if str_in fence_lean generated_proof_code \<and> str_in fence generated_proof_code then
        let start_index = str_find generated_proof_code fence_lean 0 + int (length fence_lean);
            end_index = str_find generated_proof_code fence start_index
        in if start_index \<noteq> - 1 \<and> end_index \<noteq> - 1
           then (strip (str_slice generated_proof_code start_index end_index), False)
           else (generated_proof_code, True)
      else (generated_proof_code, False))"

section \<open>Exceptions and the outside world\<close>

text \<open>
  The exceptions that the handlers of the program tell apart, each with the text of
  \<^verbatim>\<open>str(e)\<close>; \<open>CalledProcessError\<close> also carries the captured standard error.
  \<open>OtherError\<close> stands for every other subclass of \<^verbatim>\<open>Exception\<close>. What is not an
  \<^verbatim>\<open>Exception\<close> (a keyboard interrupt, the exit of the interpreter) passes every
  handler of the program and is not modelled.
\<close>

datatype exn =
    APIError pystr
  | FileNotFoundError pystr
  | CalledProcessError pystr pystr
  | TypeError pystr
  | OtherError pystr

fun exn_str :: "exn \<Rightarrow> pystr" where
  "exn_str (APIError m) = m"
| "exn_str (FileNotFoundError m) = m"
| "exn_str (CalledProcessError m err) = m"
| "exn_str (TypeError m) = m"
| "exn_str (OtherError m) = m"

fun is_api_error :: "exn \<Rightarrow> bool" where
  "is_api_error (APIError m) = True"
| "is_api_error e = False"

text \<open>
  What the outside world answers during one attempt: the chat completion (the content of
  the first choice, which may be \<^verbatim>\<open>None\<close>), the creation of the temporary file (its
  name), the write to it, \<^verbatim>\<open>Path.exists\<close>, \<^verbatim>\<open>subprocess.run\<close> with
  \<^verbatim>\<open>check=True\<close> (the captured standard output) and \<^verbatim>\<open>os.remove\<close>. \<open>Inl\<close> and
  \<open>Some\<close> are a raised exception.
\<close>

record world =
  chat_create :: "pystr \<Rightarrow> exn + pystr option"
  named_temporary_file :: "exn + pystr"
  file_write :: "pystr \<Rightarrow> exn option"
  path_exists :: "pystr \<Rightarrow> exn + bool"
  subprocess_run :: "pystr list \<Rightarrow> exn + pystr"
  os_remove :: "pystr \<Rightarrow> exn option"

section \<open>verify_lean_file (app.py, lines 15 to 47)\<close>

definition msg_no_file :: "pystr \<Rightarrow> pystr" where
  "msg_no_file file_path =
     ascii ''Erreur: Le fichier '' @ file_path @ ascii '' n'' @ [39] @ ascii ''existe pas.''"

definition msg_valid :: pystr where
  "msg_valid = [9989] @ ascii '' La preuve dans le fichier Lean est valide!'' @ [10]"

definition msg_no_lean :: pystr where
  "msg_no_lean =
     [10060] @ ascii '' Erreur: La commande '' @ [39] @ ascii ''lean'' @ [39] @ ascii '' n''
     @ [39] @ ascii ''a pas '' @ [233] @ ascii ''t'' @ [233] @ ascii '' trouv'' @ [233]
     @ ascii ''e. Assurez-vous que Lean est install'' @ [233] @ ascii '' et dans votre PATH.''"

definition msg_errors :: pystr where
  "msg_errors = [10060] @ ascii '' La preuve contient des erreurs!'' @ [10]"

definition msg_unexpected :: pystr where
  "msg_unexpected = ascii ''Erreur inattendue lors de la v'' @ [233] @ ascii ''rification Lean: ''"

text \<open>
  The body of the \<^verbatim>\<open>try\<close>: the commands it started as subprocesses, and either the
  exception that left it or the pair it returned.
\<close>

definition verify_try :: "world \<Rightarrow> pystr \<Rightarrow> pystr list list \<times> (exn + bool \<times> pystr)" where
  "verify_try w file_path =
     (case path_exists w file_path of
        Inl e \<Rightarrow> ([], Inl e)
      | Inr False \<Rightarrow> ([], Inr (False, msg_no_file file_path))
      | Inr True \<Rightarrow>
          (let cmd = [ascii ''lean'', ascii ''--run'', file_path]
           in case subprocess_run w cmd of
                Inl e \<Rightarrow> ([cmd], Inl e)
              | Inr stdout \<Rightarrow> ([cmd], Inr (True, msg_valid @ stdout))))"

text \<open>The three handlers, in the order of the source.\<close>

fun verify_except :: "exn \<Rightarrow> exn + bool \<times> pystr" where
  "verify_except (FileNotFoundError m) = Inr (False, msg_no_lean)"
| "verify_except (CalledProcessError m err) = Inr (False, msg_errors @ err)"
| "verify_except e = Inr (False, msg_unexpected @ exn_str e)"

definition verify_lean_file :: "world \<Rightarrow> pystr \<Rightarrow> pystr list list \<times> (exn + bool \<times> pystr)" where
  "verify_lean_file w file_path =
     (case verify_try w file_path of
        (cmds, Inl e) \<Rightarrow> (cmds, verify_except e)
      | (cmds, Inr r) \<Rightarrow> (cmds, Inr r))"

section \<open>The validation loop (app.py, lines 80 to 165)\<close>

text \<open>One constructor for each message the loop shows.\<close>

datatype ui_event =
    Subheader_attempt nat nat
  | Warning_fences
  | Code_proof pystr
  | Info_validating pystr
  | Success_valid
  | Error_invalid
  | Code_output pystr
  | Success_cleaned
  | Error_api exn
  | Error_unexpected exn
  | Success_final
  | Error_final

text \<open>
  The variables of the loop, and what the run has done to the outside world: the prompts
  it has sent, the pairs \<^verbatim>\<open>verify_lean_file\<close> has returned, the subprocesses started,
  the temporary files of the run that are on disk, and the messages shown.
\<close>

record run_state =
  max_attempts :: nat
  attempt :: nat
  lean_error_feedback :: pystr
  generated_proof_code :: "pystr option"
  is_valid :: bool
  lean_output :: pystr
  prompts :: "pystr list"
  verdicts :: "(bool \<times> pystr) list"
  spawned :: "pystr list list"
  tmp_files :: "pystr list"
  ui :: "ui_event list"

definition prompt_head :: pystr where
  "prompt_head =
     ascii ''Vous '' @ [234] @ ascii ''tes un assistant de preuve math'' @ [233]
     @ ascii ''matique. G'' @ [233] @ ascii ''n'' @ [233] @ ascii ''rez une d'' @ [233]
     @ ascii ''monstration formelle en langage Lean 4 pour la conjecture/probl'' @ [232]
     @ ascii ''me suivant :'' @ [10, 10]"

definition prompt_tail :: pystr where
  "prompt_tail =
     [10, 10] @ ascii ''La d'' @ [233] @ ascii ''monstration doit '' @ [234]
     @ ascii ''tre compl'' @ [232]
     @ ascii ''te et valide syntaxiquement en Lean 4. Incluez les imports n'' @ [233]
     @ ascii ''cessaires et utilisez des tactiques appropri'' @ [233] @ ascii ''es. Ne g''
     @ [233] @ ascii ''n'' @ [233] @ ascii ''rez que le code Lean, sans explication suppl''
     @ [233] @ ascii ''mentaire.'' @ [10, 10]"

definition feedback_head :: pystr where
  "feedback_head =
     ascii ''Les tentatives pr'' @ [233] @ ascii ''c'' @ [233] @ ascii ''dentes ont '' @ [233]
     @ ascii ''chou'' @ [233] @ ascii '' avec les erreurs Lean suivantes :'' @ [10]
     @ ascii ''```'' @ [10]"

definition feedback_tail :: pystr where
  "feedback_tail =
     [10] @ ascii ''```'' @ [10]
     @ ascii ''Veuillez corriger ces erreurs et fournir une d'' @ [233]
     @ ascii ''monstration valide.''"

text \<open>Lines 93 to 104; a non-empty string is true.\<close>

definition build_prompt :: "pystr \<Rightarrow> pystr \<Rightarrow> pystr" where
  "build_prompt math_problem_input feedback =
     (let prompt = prompt_head @ math_problem_input @ prompt_tail
      in if feedback \<noteq> []
         then prompt @ feedback_head @ feedback @ feedback_tail
         else prompt)"

definition none_not_iterable :: pystr where
  "none_not_iterable =
     ascii ''argument of type '' @ [39] @ ascii ''NoneType'' @ [39] @ ascii '' is not iterable''"

text \<open>
  Lines 93 to 129: build the prompt, call the model, extract the code. Testing
  \<^verbatim>\<open>"```lean" in None\<close> raises a \<^verbatim>\<open>TypeError\<close>.
\<close>

definition generation_stage :: "world \<Rightarrow> pystr \<Rightarrow> run_state \<Rightarrow> (exn + pystr) \<times> run_state" where
  "generation_stage w math_problem_input s =
     (let prompt = build_prompt math_problem_input (lean_error_feedback s);
          s1 = s\<lparr>prompts := prompts s @ [prompt]\<rparr>
      in case chat_create w prompt of
           Inl e \<Rightarrow> (Inl e, s1)
         | Inr None \<Rightarrow> (Inl (TypeError none_not_iterable), s1\<lparr>generated_proof_code := None\<rparr>)
         | Inr (Some raw) \<Rightarrow>
             (let (code, warned) = extract_block raw
              in (Inr code,
                  s1\<lparr>generated_proof_code := Some code,
                     ui := ui s1 @ (if warned then [Warning_fences] else []) @ [Code_proof code]\<rparr>)))"

text \<open>
  Lines 132 to 150: write the temporary file (created with \<^verbatim>\<open>delete=False\<close>, so it
  stays on disk when the \<^verbatim>\<open>with\<close> block is left), verify it, record the verdict,
  remove the file.
\<close>

definition validation_stage :: "world \<Rightarrow> pystr \<Rightarrow> run_state \<Rightarrow> exn option \<times> run_state" where
  "validation_stage w code s =
     (case named_temporary_file w of
        Inl e \<Rightarrow> (Some e, s)
      | Inr temp_file_path \<Rightarrow>
          (let s1 = s\<lparr>tmp_files := tmp_files s @ [temp_file_path]\<rparr>
           in case file_write w code of
                Some e \<Rightarrow> (Some e, s1)
              | None \<Rightarrow>
                  (let s2 = s1\<lparr>ui := ui s1 @ [Info_validating temp_file_path]\<rparr>;
                       (cmds, r) = verify_lean_file w temp_file_path;
                       s3 = s2\<lparr>spawned := spawned s2 @ cmds\<rparr>
                   in case r of
                        Inl e \<Rightarrow> (Some e, s3)
                      | Inr (ok, out) \<Rightarrow>
                          (let s4 = s3\<lparr>is_valid := ok, lean_output := out,
                                        verdicts := verdicts s3 @ [(ok, out)]\<rparr>;
                               s5 = (if ok then s4\<lparr>ui := ui s4 @ [Success_valid]\<rparr>
                                     else s4\<lparr>ui := ui s4 @ [Error_invalid],
                                             lean_error_feedback := out\<rparr>);
                               s6 = s5\<lparr>ui := ui s5 @ [Code_output out]\<rparr>
                           in case os_remove w temp_file_path of
                                Some e \<Rightarrow> (Some e, s6)
                              | None \<Rightarrow>
                                  (None,
                                   s6\<lparr>tmp_files := removeAll temp_file_path (tmp_files s6),
                                      ui := ui s6 @ [Success_cleaned]\<rparr>)))))"

text \<open>The body of the \<^verbatim>\<open>try\<close> of one attempt: the exception that left it, if any.\<close>

definition attempt_try :: "world \<Rightarrow> pystr \<Rightarrow> run_state \<Rightarrow> exn option \<times> run_state" where
  "attempt_try w math_problem_input s =
     (case generation_stage w math_problem_input s of
        (Inl e, s1) \<Rightarrow> (Some e, s1)
      | (Inr code, s1) \<Rightarrow> validation_stage w code s1)"

text \<open>
  The \<^verbatim>\<open>while\<close> loop. \<open>env k\<close> is the outside world during attempt \<open>k\<close>. Both
  handlers show the error and \<^verbatim>\<open>break\<close>.
\<close>

function validation_loop :: "(nat \<Rightarrow> world) \<Rightarrow> pystr \<Rightarrow> run_state \<Rightarrow> run_state" where
  "validation_loop env math_problem_input s =
     (if attempt s < max_attempts s \<and> \<not> is_valid s then
        (let s1 = s\<lparr>attempt := attempt s + 1\<rparr>;
             s2 = s1\<lparr>ui := ui s1 @ [Subheader_attempt (attempt s1) (max_attempts s1)]\<rparr>
         in case attempt_try (env (attempt s2)) math_problem_input s2 of
              (None, s3) \<Rightarrow> validation_loop env math_problem_input s3
            | (Some e, s3) \<Rightarrow>
                s3\<lparr>ui := ui s3 @ [if is_api_error e then Error_api e else Error_unexpected e]\<rparr>)
      else s)"
  by pat_completeness auto
termination
  by (relation "measure (\<lambda>(env, p, s). max_attempts s - attempt s)")
     (auto simp: attempt_try_def generation_stage_def validation_stage_def Let_def
           split: sum.splits option.splits prod.splits if_splits)

declare validation_loop.simps [simp del]

text \<open>
  Lines 80 to 85 and 161 to 165: the variables before the loop, and the final message.
  The source sets \<^verbatim>\<open>max_attempts = 3\<close>.
\<close>

definition initial_state :: "nat \<Rightarrow> run_state" where
  "initial_state n =
     \<lparr>max_attempts = n, attempt = 0, lean_error_feedback = [],
      generated_proof_code = Some [], is_valid = False, lean_output = [],
      prompts = [], verdicts = [], spawned = [], tmp_files = [], ui = []\<rparr>"

definition run_with :: "nat \<Rightarrow> (nat \<Rightarrow> world) \<Rightarrow> pystr \<Rightarrow> run_state" where
  "run_with n env math_problem_input =
     (let s = validation_loop env math_problem_input (initial_state n)
      in s\<lparr>ui := ui s @ [if is_valid s then Success_final else Error_final]\<rparr>)"

definition run_validation :: "(nat \<Rightarrow> world) \<Rightarrow> pystr \<Rightarrow> run_state" where
  "run_validation env math_problem_input = run_with 3 env math_problem_input"

section \<open>Invariants of the loop\<close>

text \<open>
  \<open>chain\<close> holds whenever the loop condition is tested: one prompt and one verdict per
  attempt, every prompt built from the problem and the output of the attempt before it,
  every earlier verdict a rejection with a non-empty output, and the feedback variable
  equal to the last output. \<open>chained\<close> is what remains of it when the loop is left by
  \<^verbatim>\<open>break\<close>, where the last attempt may have no verdict.
\<close>

definition chain :: "pystr \<Rightarrow> run_state \<Rightarrow> bool" where
  "chain p s \<longleftrightarrow>
     length (prompts s) = attempt s \<and> length (verdicts s) = attempt s
     \<and> (\<forall>k < length (prompts s).
           prompts s ! k = build_prompt p (if k = 0 then [] else snd (verdicts s ! (k - 1))))
     \<and> (\<forall>k. Suc k < length (verdicts s) \<longrightarrow> \<not> fst (verdicts s ! k) \<and> snd (verdicts s ! k) \<noteq> [])
     \<and> (\<not> is_valid s \<longrightarrow>
           (verdicts s \<noteq> [] \<longrightarrow> \<not> fst (last (verdicts s)) \<and> snd (last (verdicts s)) \<noteq> [])
           \<and> lean_error_feedback s = (if verdicts s = [] then [] else snd (last (verdicts s))))"

definition chained :: "pystr \<Rightarrow> run_state \<Rightarrow> bool" where
  "chained p r \<longleftrightarrow>
     length (prompts r) = attempt r
     \<and> (\<forall>k < length (prompts r).
           prompts r ! k = build_prompt p (if k = 0 then [] else snd (verdicts r ! (k - 1))))
     \<and> (\<forall>k. Suc k < length (prompts r) \<longrightarrow>
           k < length (verdicts r) \<and> \<not> fst (verdicts r ! k) \<and> snd (verdicts r ! k) \<noteq> [])"

section \<open>Concrete inputs\<close>

text \<open>
  A problem statement, a reply of the model with one fenced block, a temporary file name,
  a world in which every call succeeds and Lean accepts the proof, and variants of it:
  the file is missing, Lean rejects the proof, the \<^verbatim>\<open>lean\<close> command is not installed,
  \<^verbatim>\<open>os.remove\<close> raises.
\<close>

definition problem_text :: pystr where
  "problem_text = ascii ''1 + 1 = 2''"

definition reply_text :: pystr where
  "reply_text = ascii ''```lean'' @ [10] @ ascii ''example : 1 + 1 = 2 := rfl'' @ [10] @ ascii ''```''"

definition tmp_path :: pystr where
  "tmp_path = ascii ''/tmp/tmpk3v9.lean''"

definition world_ok :: world where
  "world_ok =
     \<lparr>chat_create = (\<lambda>prompt. Inr (Some reply_text)),
      named_temporary_file = Inr tmp_path,
      file_write = (\<lambda>text. None),
      path_exists = (\<lambda>file_path. Inr True),
      subprocess_run = (\<lambda>cmd. Inr []),
      os_remove = (\<lambda>file_path. None)\<rparr>"

definition world_missing_file :: world where
  "world_missing_file = world_ok\<lparr>path_exists := \<lambda>file_path. Inr False\<rparr>"

definition stderr_text :: pystr where
  "stderr_text = ascii ''example.lean:1:27: error: type mismatch''"

definition world_rejecting :: world where
  "world_rejecting =
     world_ok\<lparr>subprocess_run :=
       \<lambda>cmd. Inl (CalledProcessError (ascii ''Command returned non-zero exit status 1.'') stderr_text)\<rparr>"

definition world_no_lean :: world where
  "world_no_lean =
     world_ok\<lparr>subprocess_run :=
       \<lambda>cmd. Inl (FileNotFoundError (ascii ''[Errno 2] No such file or directory: lean''))\<rparr>"

definition world_remove_fails :: world where
  "world_remove_fails =
     world_ok\<lparr>os_remove := \<lambda>file_path. Some (OtherError (ascii ''[Errno 13] Permission denied''))\<rparr>"

definition env_ok :: "nat \<Rightarrow> world" where
  "env_ok k = world_ok"

definition env_rejecting :: "nat \<Rightarrow> world" where
  "env_rejecting k = world_rejecting"

definition env_no_lean :: "nat \<Rightarrow> world" where
  "env_no_lean k = world_no_lean"

definition env_remove_fails :: "nat \<Rightarrow> world" where
  "env_remove_fails k = world_remove_fails"

text \<open>
  Texts for the extraction block: a text with two fenced blocks in its parts, a text
  without fences, a text whose block is not closed, and a proof body with and without a
  final newline.
\<close>

definition pre_text :: pystr where
  "pre_text = ascii ''Proof:'' @ [10]"

definition block_one :: pystr where
  "block_one = [10] @ ascii ''example : 1 + 1 = 2 := rfl'' @ [10]"

definition mid_text :: pystr where
  "mid_text = [10] @ ascii ''or:'' @ [10]"

definition block_two :: pystr where
  "block_two = [10] @ ascii ''example : 1 + 1 = 2 := by simp'' @ [10]"

definition no_fences :: pystr where
  "no_fences = ascii ''no fences here''"

definition unclosed_text :: pystr where
  "unclosed_text = ascii ''```lean'' @ [10] @ ascii ''example : 1 + 1 = 2 := rfl''"

definition body_trimmed :: pystr where
  "body_trimmed = ascii ''example : 1 + 1 = 2 := rfl''"

definition body_newline :: pystr where
  "body_newline = ascii ''example : 1 + 1 = 2 := rfl'' @ [10]"

section \<open>A proof body wrapped in a fenced block\<close>

text \<open>
  The usual form of a reply: the opening marker, a newline, the body, a newline, the
  closing marker. This is the text that the claims about fenced and unfenced bodies
  compare with the body itself.
\<close>

definition fenced :: "pystr \<Rightarrow> pystr" where
  "fenced body = fence_lean @ [10] @ body @ [10] @ fence"

section \<open>The verifier adapter returns on every path\<close>

lemma msg_no_lean_nonempty: "msg_no_lean \<noteq> []"
  by (simp add: msg_no_lean_def)

lemma msg_errors_nonempty: "msg_errors \<noteq> []"
  by (simp add: msg_errors_def)

lemma msg_unexpected_nonempty: "msg_unexpected \<noteq> []"
  by (simp add: msg_unexpected_def ascii_def)

lemma msg_no_file_nonempty: "msg_no_file f \<noteq> []"
  by (simp add: msg_no_file_def ascii_def)

lemma verify_except_rejects: "\<exists>out. verify_except e = Inr (False, out) \<and> out \<noteq> []"
  by (cases e) (simp_all add: msg_no_lean_nonempty msg_errors_nonempty msg_unexpected_nonempty)

lemma verify_lean_file_returns:
  "\<exists>cmds ok out. verify_lean_file w f = (cmds, Inr (ok, out)) \<and> (\<not> ok \<longrightarrow> out \<noteq> [])"
proof (cases "path_exists w f")
  case (Inl e)
  with verify_except_rejects [of e] show ?thesis
    by (auto simp: verify_lean_file_def verify_try_def)
next
  case (Inr b)
  show ?thesis
  proof (cases b)
    case False
    with Inr show ?thesis
      by (auto simp: verify_lean_file_def verify_try_def msg_no_file_nonempty)
  next
    case True
    show ?thesis
    proof (cases "subprocess_run w [ascii ''lean'', ascii ''--run'', f]")
      case (Inl e)
      with True Inr verify_except_rejects [of e] show ?thesis
        by (auto simp: verify_lean_file_def verify_try_def)
    next
      case (Inr out)
      with True \<open>path_exists w f = Inr b\<close> show ?thesis
        by (auto simp: verify_lean_file_def verify_try_def)
    qed
  qed
qed

text \<open>
  C10. For every world and every file path, \<open>verify_lean_file\<close> returns a pair of a
  boolean and a string: no exception of the \<^verbatim>\<open>try\<close> body leaves the function. When
  the path does not exist it returns \<open>False\<close> with the message of line 27 and has started
  no subprocess.
\<close>

theorem verify_lean_file_total:
  "(\<exists>cmds ok out. verify_lean_file w file_path = (cmds, Inr (ok, out)))
   \<and> (path_exists w file_path = Inr False \<longrightarrow>
        verify_lean_file w file_path = ([], Inr (False, msg_no_file file_path)))"
proof
  from verify_lean_file_returns [of w file_path]
  show "\<exists>cmds ok out. verify_lean_file w file_path = (cmds, Inr (ok, out))" by blast
next
  show "path_exists w file_path = Inr False \<longrightarrow>
        verify_lean_file w file_path = ([], Inr (False, msg_no_file file_path))"
    by (simp add: verify_lean_file_def verify_try_def)
qed

theorem verify_lean_file_total_witness:
  "path_exists world_missing_file tmp_path = Inr False
   \<and> verify_lean_file world_missing_file tmp_path = ([], Inr (False, msg_no_file tmp_path))"
  using verify_lean_file_total [of world_missing_file tmp_path]
  by (simp add: world_missing_file_def)

section \<open>One attempt\<close>

lemma loop_stop:
  "\<not> (attempt s < max_attempts s \<and> \<not> is_valid s) \<Longrightarrow> validation_loop env p s = s"
  by (subst validation_loop.simps) auto

lemma loop_step:
  "attempt s < max_attempts s \<Longrightarrow> \<not> is_valid s \<Longrightarrow>
   validation_loop env p s =
     (case attempt_try (env (Suc (attempt s))) p
             (s\<lparr>attempt := Suc (attempt s),
                ui := ui s @ [Subheader_attempt (Suc (attempt s)) (max_attempts s)]\<rparr>) of
        (None, s3) \<Rightarrow> validation_loop env p s3
      | (Some e, s3) \<Rightarrow>
          s3\<lparr>ui := ui s3 @ [if is_api_error e then Error_api e else Error_unexpected e]\<rparr>)"
  by (subst validation_loop.simps) (simp add: Let_def)

lemma generation_stage_keeps:
  "generation_stage w p s = (r, s') \<Longrightarrow>
     attempt s' = attempt s \<and> max_attempts s' = max_attempts s \<and> verdicts s' = verdicts s
     \<and> tmp_files s' = tmp_files s \<and> is_valid s' = is_valid s
     \<and> lean_error_feedback s' = lean_error_feedback s
     \<and> prompts s' = prompts s @ [build_prompt p (lean_error_feedback s)]"
  by (auto simp: generation_stage_def Let_def split: sum.splits option.splits prod.splits)

lemma validation_stage_keeps:
  "validation_stage w code s = (r, s') \<Longrightarrow>
     attempt s' = attempt s \<and> max_attempts s' = max_attempts s \<and> prompts s' = prompts s"
  by (auto simp: validation_stage_def Let_def
           split: sum.splits option.splits prod.splits if_splits)

lemma validation_stage_None:
  assumes "validation_stage w code s = (None, s')"
  shows "\<exists>ok out. verdicts s' = verdicts s @ [(ok, out)] \<and> is_valid s' = ok
           \<and> (\<not> ok \<longrightarrow> lean_error_feedback s' = out \<and> out \<noteq> [])"
proof -
  from assms obtain path where path: "named_temporary_file w = Inr path"
    by (auto simp: validation_stage_def split: sum.splits)
  from verify_lean_file_returns [of w path] obtain cmds ok out
    where v: "verify_lean_file w path = (cmds, Inr (ok, out))" and ne: "\<not> ok \<longrightarrow> out \<noteq> []"
    by blast
  from assms path v ne show ?thesis
    by (auto simp: validation_stage_def Let_def split: option.splits if_splits)
qed

lemma validation_stage_Some:
  assumes "validation_stage w code s = (Some e, s')"
  shows "prefix (verdicts s) (verdicts s')"
proof (cases "named_temporary_file w")
  case (Inl e')
  with assms show ?thesis by (auto simp: validation_stage_def)
next
  case (Inr path)
  from verify_lean_file_returns [of w path] obtain cmds ok out
    where v: "verify_lean_file w path = (cmds, Inr (ok, out))"
    by blast
  from assms Inr v show ?thesis
    by (auto simp: validation_stage_def Let_def split: option.splits if_splits)
qed

lemma attempt_try_keeps:
  assumes "attempt_try w p s = (r, s')"
  shows "attempt s' = attempt s \<and> max_attempts s' = max_attempts s
         \<and> prompts s' = prompts s @ [build_prompt p (lean_error_feedback s)]"
proof (cases "generation_stage w p s")
  case (Pair g s1)
  note gen = generation_stage_keeps [OF Pair]
  show ?thesis
  proof (cases g)
    case (Inl e)
    with assms Pair gen show ?thesis by (simp add: attempt_try_def)
  next
    case (Inr code)
    with assms Pair have "validation_stage w code s1 = (r, s')"
      by (simp add: attempt_try_def)
    from validation_stage_keeps [OF this] gen show ?thesis by simp
  qed
qed

lemma attempt_try_None:
  assumes "attempt_try w p s = (None, s')"
  shows "\<exists>ok out. verdicts s' = verdicts s @ [(ok, out)] \<and> is_valid s' = ok
           \<and> (\<not> ok \<longrightarrow> lean_error_feedback s' = out \<and> out \<noteq> [])"
proof (cases "generation_stage w p s")
  case (Pair g s1)
  note gen = generation_stage_keeps [OF Pair]
  show ?thesis
  proof (cases g)
    case (Inl e)
    with assms Pair show ?thesis by (simp add: attempt_try_def)
  next
    case (Inr code)
    with assms Pair have "validation_stage w code s1 = (None, s')"
      by (simp add: attempt_try_def)
    from validation_stage_None [OF this] gen show ?thesis by simp
  qed
qed

lemma attempt_try_Some:
  assumes "attempt_try w p s = (Some e, s')"
  shows "prefix (verdicts s) (verdicts s')"
proof (cases "generation_stage w p s")
  case (Pair g s1)
  note gen = generation_stage_keeps [OF Pair]
  show ?thesis
  proof (cases g)
    case (Inl e')
    with assms Pair gen show ?thesis by (auto simp: attempt_try_def)
  next
    case (Inr code)
    with assms Pair have "validation_stage w code s1 = (Some e, s')"
      by (simp add: attempt_try_def)
    from validation_stage_Some [OF this] gen show ?thesis by simp
  qed
qed

section \<open>The chain of prompts and verdicts\<close>

lemma chain_rejected:
  assumes "chain p s" "\<not> is_valid s" "k < length (verdicts s)"
  shows "\<not> fst (verdicts s ! k) \<and> snd (verdicts s ! k) \<noteq> []"
proof (cases "Suc k < length (verdicts s)")
  case True
  with assms(1) show ?thesis by (simp add: chain_def)
next
  case False
  with assms(3) have "k = length (verdicts s) - 1" by simp
  moreover from assms(3) have "verdicts s \<noteq> []" by auto
  ultimately have "verdicts s ! k = last (verdicts s)" by (simp add: last_conv_nth)
  with assms(1,2) \<open>verdicts s \<noteq> []\<close> show ?thesis by (simp add: chain_def)
qed

lemma chain_next_prompt:
  assumes "chain p s" "\<not> is_valid s" "k \<le> length (prompts s)"
  shows "(prompts s @ [build_prompt p (lean_error_feedback s)]) ! k
         = build_prompt p (if k = 0 then [] else snd (verdicts s ! (k - 1)))"
proof (cases "k < length (prompts s)")
  case True
  with assms(1) show ?thesis by (simp add: chain_def nth_append)
next
  case False
  with assms(3) have k: "k = length (prompts s)" by simp
  from assms(1) have len: "length (verdicts s) = length (prompts s)" by (simp add: chain_def)
  show ?thesis
  proof (cases "verdicts s = []")
    case True
    with k len have "prompts s = []" by simp
    with assms(1,2) True k show ?thesis by (simp add: chain_def)
  next
    case False
    then have "last (verdicts s) = verdicts s ! (k - 1)"
      using k len by (simp add: last_conv_nth)
    with assms(1,2) False
    have fb: "lean_error_feedback s = snd (verdicts s ! (k - 1))" by (simp add: chain_def)
    from False len k have "k \<noteq> 0" by auto
    moreover have "(prompts s @ [build_prompt p (lean_error_feedback s)]) ! k
                   = build_prompt p (lean_error_feedback s)"
      unfolding k by simp
    ultimately show ?thesis by (simp add: fb)
  qed
qed

lemma chain_initial: "chain p (initial_state n)"
  by (simp add: chain_def initial_state_def)

lemma chain_stop: "chain p s \<Longrightarrow> chained p s"
  by (simp add: chain_def chained_def)

lemma chain_None:
  assumes c: "chain p s" and nv: "\<not> is_valid s"
    and t: "attempt_try w p (s\<lparr>attempt := Suc (attempt s), ui := u\<rparr>) = (None, s')"
  shows "chain p s'"
proof -
  from attempt_try_keeps [OF t]
  have a: "attempt s' = Suc (attempt s)"
    and ps: "prompts s' = prompts s @ [build_prompt p (lean_error_feedback s)]" by simp_all
  from attempt_try_None [OF t] obtain ok out
    where vs: "verdicts s' = verdicts s @ [(ok, out)]" and iv: "is_valid s' = ok"
      and fb: "\<not> ok \<longrightarrow> lean_error_feedback s' = out \<and> out \<noteq> []" by auto
  from c have lp: "length (prompts s) = attempt s" and lv: "length (verdicts s) = attempt s"
    by (simp_all add: chain_def)
  have 1: "\<forall>k < length (prompts s').
             prompts s' ! k = build_prompt p (if k = 0 then [] else snd (verdicts s' ! (k - 1)))"
  proof (intro allI impI)
    fix k assume "k < length (prompts s')"
    with ps have kl: "k \<le> length (prompts s)" by simp
    from chain_next_prompt [OF c nv kl]
    have "prompts s' ! k = build_prompt p (if k = 0 then [] else snd (verdicts s ! (k - 1)))"
      by (simp add: ps)
    moreover have "verdicts s' ! (k - 1) = verdicts s ! (k - 1)" if "k \<noteq> 0"
    proof -
      from that kl lp lv have "k - 1 < length (verdicts s)" by simp
      then show ?thesis by (simp add: vs nth_append)
    qed
    ultimately show "prompts s' ! k
        = build_prompt p (if k = 0 then [] else snd (verdicts s' ! (k - 1)))" by simp
  qed
  have 2: "\<forall>k. Suc k < length (verdicts s') \<longrightarrow>
             \<not> fst (verdicts s' ! k) \<and> snd (verdicts s' ! k) \<noteq> []"
  proof (intro allI impI)
    fix k assume "Suc k < length (verdicts s')"
    with vs have kl: "k < length (verdicts s)" by simp
    from chain_rejected [OF c nv kl] kl
    show "\<not> fst (verdicts s' ! k) \<and> snd (verdicts s' ! k) \<noteq> []"
      by (simp add: vs nth_append)
  qed
  from 1 2 a ps vs iv fb lp lv show ?thesis
    by (simp add: chain_def)
qed

lemma chain_Some:
  assumes c: "chain p s" and nv: "\<not> is_valid s"
    and t: "attempt_try w p (s\<lparr>attempt := Suc (attempt s), ui := u\<rparr>) = (Some e, s')"
  shows "chained p (s'\<lparr>ui := u'\<rparr>)"
proof -
  from attempt_try_keeps [OF t]
  have a: "attempt s' = Suc (attempt s)"
    and ps: "prompts s' = prompts s @ [build_prompt p (lean_error_feedback s)]" by simp_all
  from attempt_try_Some [OF t] obtain zs where vs: "verdicts s' = verdicts s @ zs"
    by (auto simp: prefix_def)
  from c have lp: "length (prompts s) = attempt s" and lv: "length (verdicts s) = attempt s"
    by (simp_all add: chain_def)
  have 1: "\<forall>k < length (prompts s').
             prompts s' ! k = build_prompt p (if k = 0 then [] else snd (verdicts s' ! (k - 1)))"
  proof (intro allI impI)
    fix k assume "k < length (prompts s')"
    with ps have kl: "k \<le> length (prompts s)" by simp
    from chain_next_prompt [OF c nv kl]
    have "prompts s' ! k = build_prompt p (if k = 0 then [] else snd (verdicts s ! (k - 1)))"
      by (simp add: ps)
    moreover have "verdicts s' ! (k - 1) = verdicts s ! (k - 1)" if "k \<noteq> 0"
    proof -
      from that kl lp lv have "k - 1 < length (verdicts s)" by simp
      then show ?thesis by (simp add: vs nth_append)
    qed
    ultimately show "prompts s' ! k
        = build_prompt p (if k = 0 then [] else snd (verdicts s' ! (k - 1)))" by simp
  qed
  have 2: "\<forall>k. Suc k < length (prompts s') \<longrightarrow>
             k < length (verdicts s') \<and> \<not> fst (verdicts s' ! k) \<and> snd (verdicts s' ! k) \<noteq> []"
  proof (intro allI impI)
    fix k assume "Suc k < length (prompts s')"
    with ps lp lv have kl: "k < length (verdicts s)" by simp
    from chain_rejected [OF c nv kl] kl
    show "k < length (verdicts s') \<and> \<not> fst (verdicts s' ! k) \<and> snd (verdicts s' ! k) \<noteq> []"
      by (simp add: vs nth_append)
  qed
  from 1 2 a ps lp show ?thesis
    by (simp add: chained_def)
qed

lemma chain_loop: "chain p s \<Longrightarrow> chained p (validation_loop env p s)"
proof (induction env p s rule: validation_loop.induct)
  case (1 env p s)
  show ?case
  proof (cases "attempt s < max_attempts s \<and> \<not> is_valid s")
    case False
    with "1.prems" show ?thesis by (simp add: loop_stop chain_stop)
  next
    case True
    let ?s2 = "s\<lparr>attempt := Suc (attempt s),
                 ui := ui s @ [Subheader_attempt (Suc (attempt s)) (max_attempts s)]\<rparr>"
    obtain r s3 where t: "attempt_try (env (Suc (attempt s))) p ?s2 = (r, s3)"
      by (cases "attempt_try (env (Suc (attempt s))) p ?s2")
    show ?thesis
    proof (cases r)
      case None
      from chain_None [OF "1.prems" _ t [unfolded None]] True have c3: "chain p s3" by simp
      have "chained p (validation_loop env p s3)"
        using "1.IH" [OF True refl refl _ refl c3] t None by simp
      with True t None show ?thesis by (simp add: loop_step)
    next
      case (Some e)
      from chain_Some [OF "1.prems" _ t [unfolded Some]] True t Some
      show ?thesis by (simp add: loop_step)
    qed
  qed
qed

lemma run_with_chained: "chained p (run_with n env p)"
  using chain_loop [OF chain_initial, of p env n]
  by (simp add: run_with_def Let_def chained_def)

section \<open>Runs in which every attempt is rejected\<close>

lemma attempt_try_rejected:
  assumes gen: "chat_create w (build_prompt p (lean_error_feedback s)) = Inr (Some raw)"
    and tmp: "named_temporary_file w = Inr path"
    and wr: "file_write w (fst (extract_block raw)) = None"
    and ver: "verify_lean_file w path = (cmds, Inr (False, out))"
    and rm: "os_remove w path = None"
  shows "\<exists>s'. attempt_try w p s = (None, s') \<and> \<not> is_valid s'"
  using assms
  by (cases "extract_block raw")
     (simp add: attempt_try_def generation_stage_def validation_stage_def Let_def)

lemma loop_rejected:
  assumes step: "\<And>s. attempt s < n \<Longrightarrow> max_attempts s = n \<Longrightarrow> \<not> is_valid s \<Longrightarrow>
      \<exists>s'. attempt_try (env (Suc (attempt s))) p
             (s\<lparr>attempt := Suc (attempt s),
                ui := ui s @ [Subheader_attempt (Suc (attempt s)) n]\<rparr>) = (None, s')
           \<and> \<not> is_valid s'"
  shows "max_attempts s = n \<Longrightarrow> attempt s \<le> n \<Longrightarrow> \<not> is_valid s \<Longrightarrow>
         attempt (validation_loop env p s) = n \<and> \<not> is_valid (validation_loop env p s)"
proof (induction "n - attempt s" arbitrary: s)
  case 0
  then show ?case by (simp add: loop_stop)
next
  case (Suc d)
  then have lt: "attempt s < n" by simp
  from step [OF lt Suc.prems(1) Suc.prems(3)] obtain s'
    where t: "attempt_try (env (Suc (attempt s))) p
               (s\<lparr>attempt := Suc (attempt s),
                  ui := ui s @ [Subheader_attempt (Suc (attempt s)) n]\<rparr>) = (None, s')"
      and nv: "\<not> is_valid s'" by blast
  from attempt_try_keeps [OF t] Suc.prems
  have a: "attempt s' = Suc (attempt s)" and m: "max_attempts s' = n" by simp_all
  from Suc.hyps(2) a have "d = n - attempt s'" by simp
  from Suc.hyps(1) [OF this m _ nv] a lt
  have "attempt (validation_loop env p s') = n \<and> \<not> is_valid (validation_loop env p s')"
    by simp
  with lt Suc.prems t show ?case by (simp add: loop_step)
qed

lemma verify_called_process_error:
  assumes "path_exists w f = Inr True"
    and "subprocess_run w [ascii ''lean'', ascii ''--run'', f] = Inl (CalledProcessError m err)"
  shows "verify_lean_file w f = ([[ascii ''lean'', ascii ''--run'', f]], Inr (False, msg_errors @ err))"
  using assms by (simp add: verify_lean_file_def verify_try_def)

lemma verify_file_not_found:
  assumes "path_exists w f = Inr True"
    and "subprocess_run w [ascii ''lean'', ascii ''--run'', f] = Inl (FileNotFoundError m)"
  shows "verify_lean_file w f = ([[ascii ''lean'', ascii ''--run'', f]], Inr (False, msg_no_lean))"
  using assms by (simp add: verify_lean_file_def verify_try_def)

lemma verify_valid:
  assumes "path_exists w f = Inr True"
    and "subprocess_run w [ascii ''lean'', ascii ''--run'', f] = Inr out"
  shows "verify_lean_file w f = ([[ascii ''lean'', ascii ''--run'', f]], Inr (True, msg_valid @ out))"
  using assms by (simp add: verify_lean_file_def verify_try_def)

lemma run_with_rejected:
  assumes gen: "\<And>k q. 1 \<le> k \<Longrightarrow> k \<le> n \<Longrightarrow> \<exists>raw. chat_create (env k) q = Inr (Some raw)"
    and tmp: "\<And>k. 1 \<le> k \<Longrightarrow> k \<le> n \<Longrightarrow> \<exists>path. named_temporary_file (env k) = Inr path"
    and wr: "\<And>k t. 1 \<le> k \<Longrightarrow> k \<le> n \<Longrightarrow> file_write (env k) t = None"
    and ver: "\<And>k f. 1 \<le> k \<Longrightarrow> k \<le> n \<Longrightarrow>
                \<exists>cmds out. verify_lean_file (env k) f = (cmds, Inr (False, out))"
    and rm: "\<And>k f. 1 \<le> k \<Longrightarrow> k \<le> n \<Longrightarrow> os_remove (env k) f = None"
  shows "attempt (run_with n env p) = n \<and> length (prompts (run_with n env p)) = n
         \<and> \<not> is_valid (run_with n env p) \<and> last (ui (run_with n env p)) = Error_final"
proof -
  have step: "\<exists>s'. attempt_try (env (Suc (attempt s))) p
             (s\<lparr>attempt := Suc (attempt s),
                ui := ui s @ [Subheader_attempt (Suc (attempt s)) n]\<rparr>) = (None, s')
           \<and> \<not> is_valid s'" if "attempt s < n" for s
  proof -
    let ?k = "Suc (attempt s)"
    from that have k: "1 \<le> ?k" "?k \<le> n" by simp_all
    from gen [OF k] obtain raw
      where g: "chat_create (env ?k) (build_prompt p (lean_error_feedback s)) = Inr (Some raw)"
      by blast
    from tmp [OF k] obtain path where t: "named_temporary_file (env ?k) = Inr path" by blast
    from ver [OF k] obtain cmds out
      where v: "verify_lean_file (env ?k) path = (cmds, Inr (False, out))" by blast
    show ?thesis
      by (rule attempt_try_rejected [where raw = raw and path = path and cmds = cmds and out = out])
         (simp_all add: g t wr [OF k] rm [OF k] v)
  qed
  have "attempt (validation_loop env p (initial_state n)) = n
        \<and> \<not> is_valid (validation_loop env p (initial_state n))"
    by (rule loop_rejected) (simp_all add: step initial_state_def)
  moreover from run_with_chained [of p n env]
  have "length (prompts (run_with n env p)) = attempt (run_with n env p)"
    by (simp add: chained_def)
  ultimately show ?thesis by (simp add: run_with_def Let_def)
qed

text \<open>
  C3. With a budget of \<open>n\<close> attempts (the source sets 3), if in every attempt the model
  answers, the temporary file is written and removed, and Lean runs and exits with a
  non-zero status (\<^verbatim>\<open>CalledProcessError\<close>), then the run makes exactly \<open>n\<close>
  attempts, sends \<open>n\<close> prompts, and ends not valid with the final error message.
\<close>

theorem rejected_every_cycle_exhausts_budget:
  assumes gen: "\<And>k q. 1 \<le> k \<Longrightarrow> k \<le> n \<Longrightarrow> \<exists>raw. chat_create (env k) q = Inr (Some raw)"
    and tmp: "\<And>k. 1 \<le> k \<Longrightarrow> k \<le> n \<Longrightarrow> \<exists>path. named_temporary_file (env k) = Inr path"
    and wr: "\<And>k t. 1 \<le> k \<Longrightarrow> k \<le> n \<Longrightarrow> file_write (env k) t = None"
    and ex: "\<And>k f. 1 \<le> k \<Longrightarrow> k \<le> n \<Longrightarrow> path_exists (env k) f = Inr True"
    and lean: "\<And>k cmd. 1 \<le> k \<Longrightarrow> k \<le> n \<Longrightarrow>
                 \<exists>m err. subprocess_run (env k) cmd = Inl (CalledProcessError m err)"
    and rm: "\<And>k f. 1 \<le> k \<Longrightarrow> k \<le> n \<Longrightarrow> os_remove (env k) f = None"
  shows "attempt (run_with n env p) = n \<and> length (prompts (run_with n env p)) = n
         \<and> \<not> is_valid (run_with n env p) \<and> last (ui (run_with n env p)) = Error_final"
proof (rule run_with_rejected [OF gen tmp wr _ rm])
  fix k f assume k: "1 \<le> k" "k \<le> n"
  from lean [OF k] obtain m err
    where "subprocess_run (env k) [ascii ''lean'', ascii ''--run'', f]
           = Inl (CalledProcessError m err)" by blast
  from verify_called_process_error [OF ex [OF k] this]
  show "\<exists>cmds out. verify_lean_file (env k) f = (cmds, Inr (False, out))" by blast
qed

text \<open>The hypotheses of C3 hold of the world in which Lean rejects every proof.\<close>

theorem rejected_every_cycle_exhausts_budget_witness:
  "path_exists (env_rejecting 1) tmp_path = Inr True
   \<and> attempt (run_with 3 env_rejecting problem_text) = 3
   \<and> length (prompts (run_with 3 env_rejecting problem_text)) = 3
   \<and> \<not> is_valid (run_with 3 env_rejecting problem_text)
   \<and> last (ui (run_with 3 env_rejecting problem_text)) = Error_final"
  using rejected_every_cycle_exhausts_budget [of 3 env_rejecting problem_text]
  by (simp add: env_rejecting_def world_rejecting_def world_ok_def)

lemma rejecting_run:
  "attempt (run_with 3 env_rejecting p) = 3 \<and> length (prompts (run_with 3 env_rejecting p)) = 3"
  using run_with_rejected [of 3 env_rejecting p]
  by (simp add: env_rejecting_def world_rejecting_def world_ok_def verify_lean_file_def
        verify_try_def)

text \<open>
  C1. When the \<^verbatim>\<open>lean\<close> command is not installed, \<^verbatim>\<open>subprocess.run\<close> raises
  \<^verbatim>\<open>FileNotFoundError\<close>; \<open>verify_lean_file\<close> turns it into \<open>(False, msg_no_lean)\<close>,
  which the loop cannot tell from a rejected proof. The run of the source then makes
  three attempts and sends three prompts, where the claim asks for exactly one attempt.
\<close>

theorem missing_lean_is_retried:
  "verify_lean_file world_no_lean tmp_path
     = ([[ascii ''lean'', ascii ''--run'', tmp_path]], Inr (False, msg_no_lean))
   \<and> attempt (run_validation env_no_lean problem_text) = 3
   \<and> length (prompts (run_validation env_no_lean problem_text)) = 3
   \<and> \<not> is_valid (run_validation env_no_lean problem_text)"
  using run_with_rejected [of 3 env_no_lean problem_text]
  by (simp add: run_validation_def env_no_lean_def world_no_lean_def world_ok_def
        verify_lean_file_def verify_try_def)

section \<open>First success, feedback and the temporary file\<close>

text \<open>
  C5. If in the first attempt the model answers, the temporary file is written, and Lean
  runs on it and exits with status zero, then the run makes exactly one attempt, sends one
  prompt, and ends valid with the final success message, whatever \<^verbatim>\<open>os.remove\<close> does
  and for every budget of at least one attempt.
\<close>

theorem first_cycle_valid_one_attempt:
  assumes gen: "chat_create (env 1) (build_prompt p []) = Inr (Some raw)"
    and tmp: "named_temporary_file (env 1) = Inr path"
    and wr: "file_write (env 1) (fst (extract_block raw)) = None"
    and ex: "path_exists (env 1) path = Inr True"
    and lean: "subprocess_run (env 1) [ascii ''lean'', ascii ''--run'', path] = Inr out"
    and n: "0 < n"
  shows "attempt (run_with n env p) = 1 \<and> length (prompts (run_with n env p)) = 1
         \<and> is_valid (run_with n env p) \<and> last (ui (run_with n env p)) = Success_final"
proof -
  let ?s2 = "(initial_state n)\<lparr>attempt := Suc 0, ui := [Subheader_attempt (Suc 0) n]\<rparr>"
  note v = verify_valid [OF ex lean]
  obtain r s3 where t: "attempt_try (env (Suc 0)) p ?s2 = (r, s3)"
    by (cases "attempt_try (env (Suc 0)) p ?s2")
  from attempt_try_keeps [OF t]
  have a: "attempt s3 = 1" and m: "max_attempts s3 = n" and ps: "length (prompts s3) = 1"
    by (simp_all add: initial_state_def)
  have iv: "is_valid s3"
    using t gen tmp wr v
    by (cases "extract_block raw")
       (auto simp: attempt_try_def generation_stage_def validation_stage_def Let_def
          initial_state_def split: option.splits)
  have "validation_loop env p (initial_state n)
        = (case r of None \<Rightarrow> validation_loop env p s3
           | Some e \<Rightarrow> s3\<lparr>ui := ui s3 @ [if is_api_error e then Error_api e else Error_unexpected e]\<rparr>)"
    using n t by (simp add: loop_step initial_state_def)
  moreover have "validation_loop env p s3 = s3"
    using iv by (simp add: loop_stop)
  ultimately have "attempt (validation_loop env p (initial_state n)) = 1
      \<and> length (prompts (validation_loop env p (initial_state n))) = 1
      \<and> is_valid (validation_loop env p (initial_state n))"
    using a ps iv by (cases r) simp_all
  then show ?thesis by (simp add: run_with_def Let_def)
qed

text \<open>The hypotheses of C5 hold of the world in which every call succeeds.\<close>

theorem first_cycle_valid_one_attempt_witness:
  "chat_create (env_ok 1) (build_prompt problem_text []) = Inr (Some reply_text)
   \<and> path_exists (env_ok 1) tmp_path = Inr True
   \<and> attempt (run_with 3 env_ok problem_text) = 1
   \<and> length (prompts (run_with 3 env_ok problem_text)) = 1
   \<and> is_valid (run_with 3 env_ok problem_text)
   \<and> last (ui (run_with 3 env_ok problem_text)) = Success_final"
  using first_cycle_valid_one_attempt
          [of env_ok problem_text reply_text tmp_path "[]" 3]
  by (simp add: env_ok_def world_ok_def)

text \<open>
  C4. Whenever a run has built a prompt for attempt \<open>k + 2\<close> (index \<open>Suc k\<close> in the list
  of prompts), attempt \<open>k + 1\<close> has a verdict, the verdict is a rejection, and the text
  \<open>verify_lean_file\<close> returned with it occurs in that prompt as a contiguous piece.
\<close>

theorem next_prompt_quotes_diagnostic:
  assumes "Suc k < length (prompts (run_with n env p))"
  shows "k < length (verdicts (run_with n env p))
         \<and> \<not> fst (verdicts (run_with n env p) ! k)
         \<and> sublist (snd (verdicts (run_with n env p) ! k)) (prompts (run_with n env p) ! Suc k)"
proof -
  let ?r = "run_with n env p"
  from run_with_chained [of p n env] assms
  have k: "k < length (verdicts ?r)" and f: "\<not> fst (verdicts ?r ! k)"
    and ne: "snd (verdicts ?r ! k) \<noteq> []"
    and pr: "prompts ?r ! Suc k = build_prompt p (snd (verdicts ?r ! k))"
    by (simp_all add: chained_def)
  from ne have "build_prompt p (snd (verdicts ?r ! k))
      = (prompt_head @ p @ prompt_tail @ feedback_head) @ snd (verdicts ?r ! k) @ feedback_tail"
    by (simp add: build_prompt_def)
  then have "sublist (snd (verdicts ?r ! k)) (build_prompt p (snd (verdicts ?r ! k)))"
    by (simp only: sublist_appendI)
  with k f pr show ?thesis by simp
qed

text \<open>A run of three rejected attempts has a third prompt.\<close>

theorem next_prompt_quotes_diagnostic_witness:
  "Suc 1 < length (prompts (run_with 3 env_rejecting problem_text))
   \<and> \<not> fst (verdicts (run_with 3 env_rejecting problem_text) ! 1)
   \<and> sublist (snd (verdicts (run_with 3 env_rejecting problem_text) ! 1))
        (prompts (run_with 3 env_rejecting problem_text) ! Suc 1)"
  using next_prompt_quotes_diagnostic [of 1 3 env_rejecting problem_text]
    rejecting_run [of problem_text]
  by simp

text \<open>
  C9. The first prompt of a run carries no diagnostic, and every later prompt is the fixed
  text around the problem statement followed by the output of the attempt just before it
  and nothing else: no output of an earlier attempt is kept.
\<close>

theorem prompt_feedback_is_last_diagnostic:
  assumes "Suc k < length (prompts (run_with n env p))"
  shows "prompts (run_with n env p) ! 0 = prompt_head @ p @ prompt_tail
         \<and> prompts (run_with n env p) ! Suc k
             = prompt_head @ p @ prompt_tail @ feedback_head
               @ snd (verdicts (run_with n env p) ! k) @ feedback_tail"
proof -
  let ?r = "run_with n env p"
  from run_with_chained [of p n env] assms
  have ne: "snd (verdicts ?r ! k) \<noteq> []"
    and pr: "prompts ?r ! Suc k = build_prompt p (snd (verdicts ?r ! k))"
    by (simp_all add: chained_def)
  from assms have "0 < length (prompts ?r)" by auto
  with run_with_chained [of p n env]
  have "prompts ?r ! 0 = build_prompt p []"
    unfolding chained_def by auto
  with ne pr show ?thesis by (simp add: build_prompt_def)
qed

text \<open>The same run of three rejected attempts.\<close>

theorem prompt_feedback_is_last_diagnostic_witness:
  "Suc 1 < length (prompts (run_with 3 env_rejecting problem_text))
   \<and> prompts (run_with 3 env_rejecting problem_text) ! 0
       = prompt_head @ problem_text @ prompt_tail
   \<and> prompts (run_with 3 env_rejecting problem_text) ! Suc 1
       = prompt_head @ problem_text @ prompt_tail @ feedback_head
         @ snd (verdicts (run_with 3 env_rejecting problem_text) ! 1) @ feedback_tail"
  using prompt_feedback_is_last_diagnostic [of 1 3 env_rejecting problem_text]
    rejecting_run [of problem_text]
  by simp

text \<open>
  C2, for the attempts in which \<^verbatim>\<open>os.remove\<close> does not raise. Once
  the temporary file of an attempt has been created and written,
  \<open>verify_lean_file\<close> is called and returns (it catches every exception of the
  subprocess call), its verdict is recorded, and line 149 is reached: if
  \<^verbatim>\<open>os.remove\<close> does not raise, the file is no longer on disk at
  the end of the attempt, whatever the verdict was.
\<close>

theorem temp_file_removed_after_verification:
  assumes "named_temporary_file w = Inr path"
    and "file_write w code = None"
    and "os_remove w path = None"
  shows "path \<notin> set (tmp_files (snd (validation_stage w code s)))
         \<and> length (verdicts (snd (validation_stage w code s))) = Suc (length (verdicts s))"
proof -
  from verify_lean_file_returns [of w path] obtain cmds ok out
    where v: "verify_lean_file w path = (cmds, Inr (ok, out))" by blast
  with assms show ?thesis
    by (simp add: validation_stage_def Let_def)
qed

text \<open>The hypotheses hold of the world in which Lean rejects the proof.\<close>

theorem temp_file_removed_after_verification_witness:
  "named_temporary_file world_rejecting = Inr tmp_path
   \<and> file_write world_rejecting reply_text = None
   \<and> os_remove world_rejecting tmp_path = None
   \<and> tmp_path \<notin> set (tmp_files (snd (validation_stage world_rejecting reply_text (initial_state 3))))
   \<and> length (verdicts (snd (validation_stage world_rejecting reply_text (initial_state 3))))
       = Suc (length (verdicts (initial_state 3)))"
  using temp_file_removed_after_verification
          [of world_rejecting tmp_path reply_text "initial_state 3"]
  by (simp add: world_rejecting_def world_ok_def)

text \<open>
  C2 does not hold on the exception path of an attempt: the file is created with
  \<^verbatim>\<open>delete=False\<close> and the handlers of lines 152 to 159 remove
  nothing. When \<^verbatim>\<open>os.remove\<close> raises after a verification call, the
  run ends with the temporary file still on disk.
\<close>

theorem temp_file_left_when_remove_raises:
  "tmp_files (run_validation env_remove_fails problem_text) = [tmp_path]
   \<and> verdicts (run_validation env_remove_fails problem_text) = [(True, msg_valid)]"
  by (simp add: run_validation_def run_with_def initial_state_def loop_step
        attempt_try_def generation_stage_def validation_stage_def Let_def
        env_remove_fails_def world_remove_fails_def world_ok_def
        verify_lean_file_def verify_try_def split: prod.splits)

section \<open>Searching a string\<close>

lemma fence_codes: "fence = [96, 96, 96]"
  by (simp add: fence_def ascii_def)

lemma fence_lean_codes: "fence_lean = [96, 96, 96, 108, 101, 97, 110]"
  by (simp add: fence_lean_def ascii_def)

lemma fence_lean_split: "fence_lean = fence @ [108, 101, 97, 110]"
  by (simp add: fence_codes fence_lean_codes)

lemma sublist_fence_fence_lean: "sublist fence fence_lean"
  unfolding fence_lean_split by (rule sublist_append_rightI)

lemma length_fence_lean: "length fence_lean = 7"
  by (simp add: fence_lean_codes)

lemma find_from_range: "find_from sub s i = - 1 \<or> int i \<le> find_from sub s i"
  by (induction s arbitrary: i) (auto, force)

lemma find_from_found:
  "find_from sub s i \<noteq> - 1 \<Longrightarrow> \<exists>j. find_from sub s i = int (i + j)"
proof (induction s arbitrary: i)
  case Nil
  then show ?case by (auto split: if_splits)
next
  case (Cons c cs)
  show ?case
  proof (cases "prefix sub (c # cs)")
    case True
    then have "find_from sub (c # cs) i = int (i + 0)" by simp
    then show ?thesis by blast
  next
    case False
    with Cons.prems have "find_from sub cs (Suc i) \<noteq> - 1" by simp
    from Cons.IH [OF this] obtain j where "find_from sub cs (Suc i) = int (Suc i + j)" by blast
    with False have "find_from sub (c # cs) i = int (i + Suc j)" by simp
    then show ?thesis by blast
  qed
qed

lemma find_from_sublist: "find_from sub s i \<noteq> - 1 \<longleftrightarrow> sublist sub s"
  by (induction s arbitrary: i) (auto simp: sublist_Cons_right)

lemma find_from_first:
  "find_from sub s i = int (i + j) \<longleftrightarrow>
     j \<le> length s \<and> prefix sub (drop j s) \<and> (\<forall>j' < j. \<not> prefix sub (drop j' s))"
proof (induction s arbitrary: i j)
  case Nil
  then show ?case by auto
next
  case (Cons c cs)
  show ?case
  proof (cases "prefix sub (c # cs)")
    case True
    have "(j \<le> length (c # cs) \<and> prefix sub (drop j (c # cs))
           \<and> (\<forall>j' < j. \<not> prefix sub (drop j' (c # cs)))) \<longleftrightarrow> j = 0"
    proof
      assume a: "j \<le> length (c # cs) \<and> prefix sub (drop j (c # cs))
           \<and> (\<forall>j' < j. \<not> prefix sub (drop j' (c # cs)))"
      show "j = 0"
      proof (rule ccontr)
        assume "j \<noteq> 0"
        then have "0 < j" by simp
        with a have "\<not> prefix sub (drop 0 (c # cs))" by blast
        with True show False by simp
      qed
    next
      assume "j = 0"
      with True show "j \<le> length (c # cs) \<and> prefix sub (drop j (c # cs))
           \<and> (\<forall>j' < j. \<not> prefix sub (drop j' (c # cs)))" by simp
    qed
    with True show ?thesis by simp
  next
    case False
    show ?thesis
    proof (cases j)
      case 0
      from find_from_range [of sub cs "Suc i"]
      have "find_from sub cs (Suc i) \<noteq> int i" by auto
      with False 0 show ?thesis by simp
    next
      case (Suc j0)
      have "(\<forall>j' < Suc j0. \<not> prefix sub (drop j' (c # cs)))
            \<longleftrightarrow> (\<forall>j' < j0. \<not> prefix sub (drop j' cs))"
      proof
        assume a: "\<forall>j' < Suc j0. \<not> prefix sub (drop j' (c # cs))"
        show "\<forall>j' < j0. \<not> prefix sub (drop j' cs)"
        proof (intro allI impI)
          fix j' assume "j' < j0"
          then have "Suc j' < Suc j0" by simp
          with a have "\<not> prefix sub (drop (Suc j') (c # cs))" by blast
          then show "\<not> prefix sub (drop j' cs)" by simp
        qed
      next
        assume a: "\<forall>j' < j0. \<not> prefix sub (drop j' cs)"
        show "\<forall>j' < Suc j0. \<not> prefix sub (drop j' (c # cs))"
        proof (intro allI impI)
          fix j' assume j': "j' < Suc j0"
          show "\<not> prefix sub (drop j' (c # cs))"
          proof (cases j')
            case 0
            with False show ?thesis by simp
          next
            case (Suc j'')
            with j' a show ?thesis by simp
          qed
        qed
      qed
      moreover from Cons.IH [of "Suc i" j0]
      have "find_from sub cs (Suc i) = int (Suc i + j0) \<longleftrightarrow>
              j0 \<le> length cs \<and> prefix sub (drop j0 cs) \<and> (\<forall>j' < j0. \<not> prefix sub (drop j' cs))" .
      ultimately show ?thesis using False Suc by simp
    qed
  qed
qed

lemma prefix_append_short:
  "prefix xs (ys @ zs) \<Longrightarrow> length xs \<le> length ys \<Longrightarrow> prefix xs ys"
  by (auto simp: prefix_append)

lemma find_from_append:
  assumes "find_from sub s i = int (i + j)"
  shows "find_from sub (s @ t) i = int (i + j)"
proof -
  from assms [unfolded find_from_first]
  have j: "j \<le> length s" and p: "prefix sub (drop j s)"
    and m: "\<forall>j' < j. \<not> prefix sub (drop j' s)"
    by simp_all
  from p have len: "length sub \<le> length s - j"
    using prefix_length_le by fastforce
  have "\<not> prefix sub (drop j' (s @ t))" if "j' < j" for j'
  proof
    assume "prefix sub (drop j' (s @ t))"
    with that j have "prefix sub (drop j' s @ t)" by simp
    moreover from that len have "length sub \<le> length (drop j' s)" by simp
    ultimately have "prefix sub (drop j' s)" by (rule prefix_append_short)
    with m that show False by blast
  qed
  moreover from p j have "prefix sub (drop j (s @ t))" by (simp add: prefix_prefix)
  ultimately show ?thesis unfolding find_from_first using j by simp
qed

lemma find_from_not_before:
  assumes "find_from sub s i = int (i + j)" and "sub \<noteq> []"
  shows "\<not> sublist sub (take j s)"
proof
  assume "sublist sub (take j s)"
  then obtain ps ss where t: "take j s = ps @ sub @ ss" by (auto simp: sublist_def)
  then have "length ps + length sub \<le> length (take j s)" by simp
  with assms(2) have lt: "length ps < j" by (cases sub) auto
  have "s = take j s @ drop j s" by simp
  with t have "s = ps @ sub @ ss @ drop j s" by simp
  then have "drop (length ps) s = sub @ ss @ drop j s"
    by (metis append_eq_conv_conj)
  then have "prefix sub (drop (length ps) s)" by simp
  with assms(1) [unfolded find_from_first] lt show False by blast
qed

lemma str_find_from:
  "0 \<le> start \<Longrightarrow> start \<le> int (length s) \<Longrightarrow>
   str_find s sub start = find_from sub (drop (nat start) s) (nat start)"
  by (simp add: str_find_def Let_def)

lemma str_find_0: "str_find s sub 0 = find_from sub s 0"
  by (simp add: str_find_def)

lemma str_in_sublist: "str_in sub s \<longleftrightarrow> sublist sub s"
  by (simp add: str_in_def str_find_0 find_from_sublist)

lemma str_slice_plain:
  "i \<le> j \<Longrightarrow> j \<le> length s \<Longrightarrow> str_slice s (int i) (int j) = take (j - i) (drop i s)"
  by (simp add: str_slice_def slice_index_def Let_def)

section \<open>The extraction block\<close>

lemma is_space_newline: "is_space 10"
  by (simp add: is_space_def)

lemma strip_leading: "is_space c \<Longrightarrow> strip (c # s) = strip s"
  by (simp add: strip_def)

lemma strip_trailing:
  assumes "is_space c"
  shows "strip (s @ [c]) = strip s"
proof (cases "\<forall>x \<in> set s. is_space x")
  case True
  then have "dropWhile is_space s = []" by (simp add: dropWhile_eq_Nil_conv)
  moreover from True assms have "\<forall>x \<in> set (s @ [c]). is_space x" by simp
  then have "dropWhile is_space (s @ [c]) = []" by (simp only: dropWhile_eq_Nil_conv)
  ultimately show ?thesis by (simp only: strip_def)
next
  case False
  then obtain x where "x \<in> set s" "\<not> is_space x" by blast
  then have "dropWhile is_space (s @ [c]) = dropWhile is_space s @ [c]"
    by (rule dropWhile_append1)
  with assms show ?thesis by (simp add: strip_def)
qed

lemma sublist_strip: "sublist (strip s) s"
proof -
  have "sublist (dropWhile is_space (rev (dropWhile is_space s))) (rev (dropWhile is_space s))"
    by (rule sublist_dropWhile)
  then have "sublist (strip s) (dropWhile is_space s)"
    by (simp add: strip_def sublist_rev_left)
  moreover have "sublist (dropWhile is_space s) s" by (rule sublist_dropWhile)
  ultimately show ?thesis by (rule sublist_order.order.trans)
qed

lemma find_from_shift:
  "find_from sub s i = int (i + j) \<Longrightarrow> find_from sub s i' = int (i' + j)"
  unfolding find_from_first .

lemma extract_block_found:
  assumes o: "find_from fence_lean raw 0 = int (0 + p)"
    and c: "find_from fence (drop (p + 7) raw) (p + 7) = int (p + 7 + j)"
  shows "extract_block raw = (strip (take j (drop (p + 7) raw)), False)"
proof -
  from o have "find_from fence_lean raw 0 \<noteq> - 1" by simp
  then have sl: "sublist fence_lean raw" by (simp add: find_from_sublist)
  with sublist_fence_fence_lean have sf: "sublist fence raw"
    by (rule sublist_order.order.trans)
  from o [unfolded find_from_first] have "prefix fence_lean (drop p raw)" by simp
  then have "length fence_lean \<le> length (drop p raw)" by (rule prefix_length_le)
  then have len: "p + 7 \<le> length raw" by (simp add: length_fence_lean)
  from c [unfolded find_from_first] have j: "j \<le> length raw - (p + 7)" by simp
  from o have start: "str_find raw fence_lean 0 + int (length fence_lean) = int (p + 7)"
    by (simp add: str_find_0 length_fence_lean)
  from len c have e: "str_find raw fence (int (p + 7)) = int (p + 7 + j)"
    by (simp add: str_find_from del: of_nat_add)
  from len j have "str_slice raw (int (p + 7)) (int (p + 7 + j)) = take j (drop (p + 7) raw)"
    by (simp add: str_slice_plain del: of_nat_add)
  with sl sf start e show ?thesis
    by (simp add: extract_block_def str_in_sublist Let_def del: of_nat_add)
qed

lemma extract_block_unfenced: "\<not> str_in fence_lean raw \<Longrightarrow> extract_block raw = (raw, False)"
  by (simp add: extract_block_def)

lemma extract_block_unclosed:
  assumes "str_in fence_lean raw"
    and "str_find raw fence (str_find raw fence_lean 0 + int (length fence_lean)) = - 1"
  shows "extract_block raw = (raw, True)"
proof -
  from assms(1) have "sublist fence_lean raw" by (simp add: str_in_sublist)
  with sublist_fence_fence_lean have "sublist fence raw"
    by (rule sublist_order.order.trans)
  with assms show ?thesis
    by (simp add: extract_block_def str_in_sublist Let_def)
qed

lemma extract_block_first:
  assumes h1: "str_find (pre @ fence_lean) fence_lean 0 = int (length pre)"
    and h2: "str_find (b1 @ fence) fence 0 = int (length b1)"
  shows "extract_block (pre @ fence_lean @ b1 @ fence @ rest) = (strip b1, False)"
proof -
  let ?raw = "pre @ fence_lean @ b1 @ fence @ rest"
  let ?p = "length pre"
  from h1 have "find_from fence_lean (pre @ fence_lean) 0 = int (0 + ?p)"
    by (simp add: str_find_0)
  then have "find_from fence_lean ((pre @ fence_lean) @ b1 @ fence @ rest) 0 = int (0 + ?p)"
    by (rule find_from_append)
  then have o: "find_from fence_lean ?raw 0 = int (0 + ?p)" by simp
  have d: "drop (?p + 7) ?raw = b1 @ fence @ rest"
    by (simp add: length_fence_lean)
  from h2 have "find_from fence (b1 @ fence) 0 = int (0 + length b1)"
    by (simp add: str_find_0)
  then have "find_from fence ((b1 @ fence) @ rest) 0 = int (0 + length b1)"
    by (rule find_from_append)
  then have "find_from fence ((b1 @ fence) @ rest) (?p + 7) = int (?p + 7 + length b1)"
    by (rule find_from_shift)
  with d have c: "find_from fence (drop (?p + 7) ?raw) (?p + 7) = int (?p + 7 + length b1)"
    by simp
  from extract_block_found [OF o c, unfolded d] show ?thesis by simp
qed

text \<open>
  C6. Take a text with two fenced Lean blocks: \<open>pre\<close>, the opening marker, \<open>b1\<close>, the
  closing marker, anything, a second opening marker, \<open>b2\<close>, a closing marker, anything.
  If the opening marker after \<open>pre\<close> is the first one of the text and the closing marker
  after \<open>b1\<close> is the first one after it, the block returns \<open>b1\<close> stripped, without the
  warning: the second block and the rest of the text are ignored.
\<close>

theorem extract_block_first_of_two:
  assumes "str_find (pre @ fence_lean) fence_lean 0 = int (length pre)"
    and "str_find (b1 @ fence) fence 0 = int (length b1)"
  shows "extract_block (pre @ fence_lean @ b1 @ fence @ mid @ fence_lean @ b2 @ fence @ post)
         = (strip b1, False)"
  using assms by (rule extract_block_first)

text \<open>
  C7. A text without the opening marker is returned as it is, without the warning. A text
  that has the opening marker and no closing marker after the first one is returned as it
  is, and the warning of line 126 is issued.
\<close>

theorem extract_block_fallback:
  "(\<not> str_in fence_lean raw \<longrightarrow> extract_block raw = (raw, False))
   \<and> (str_in fence_lean raw
        \<and> str_find raw fence (str_find raw fence_lean 0 + int (length fence_lean)) = - 1
      \<longrightarrow> extract_block raw = (raw, True))"
  using extract_block_unfenced [of raw] extract_block_unclosed [of raw] by blast

lemma prefix_fence_newline:
  assumes "prefix fence (xs @ 10 # ys)"
  shows "prefix fence xs"
proof -
  from assms consider "prefix fence xs" | us where "fence = xs @ us" "prefix us (10 # ys)"
    by (auto simp: prefix_append)
  then show ?thesis
  proof cases
    case 1
    then show ?thesis .
  next
    case 2
    show ?thesis
    proof (cases us)
      case Nil
      with 2 show ?thesis by simp
    next
      case (Cons u us')
      with 2 have "u = 10" by simp
      with Cons have "10 \<in> set (xs @ us)" by simp
      with 2(1) have "10 \<in> set fence" by simp
      then show ?thesis by (simp add: fence_codes)
    qed
  qed
qed

lemma extract_block_fenced:
  assumes "\<not> str_in fence body"
  shows "extract_block (fenced body) = (strip body, False)"
proof -
  from assms have ns: "\<not> sublist fence body" by (simp add: str_in_sublist)
  let ?raw = "fenced body"
  let ?s = "10 # body @ 10 # fence"
  have "prefix fence_lean (drop 0 ?raw)" by (simp add: fenced_def)
  then have o: "find_from fence_lean ?raw 0 = int (0 + 0)"
    unfolding find_from_first by simp
  have d: "drop (0 + 7) ?raw = ?s" by (simp add: fenced_def length_fence_lean)
  have m: "\<not> prefix fence (drop j' ?s)" if "j' < length body + 2" for j'
  proof (cases j')
    case 0
    then show ?thesis by (simp add: fence_codes)
  next
    case (Suc j'')
    with that have "j'' \<le> length body" by simp
    then have "drop j' ?s = drop j'' body @ 10 # fence" using Suc by simp
    moreover have "\<not> prefix fence (drop j'' body @ 10 # fence)"
    proof
      assume "prefix fence (drop j'' body @ 10 # fence)"
      then have "prefix fence (drop j'' body)" by (rule prefix_fence_newline)
      then have "sublist fence (drop j'' body)" by (rule prefix_imp_sublist)
      moreover have "sublist (drop j'' body) body" by (rule sublist_drop)
      ultimately have "sublist fence body" by (rule sublist_order.order.trans)
      with ns show False by contradiction
    qed
    ultimately show ?thesis by simp
  qed
  have "prefix fence (drop (length body + 2) ?s)" by simp
  with m have "find_from fence ?s (0 + 7) = int (0 + 7 + (length body + 2))"
    unfolding find_from_first by simp
  with d have c: "find_from fence (drop (0 + 7) ?raw) (0 + 7) = int (0 + 7 + (length body + 2))"
    by simp
  have "take (length body + 2) ?s = 10 # body @ [10]" by simp
  with extract_block_found [OF o c, unfolded d]
  have "extract_block ?raw = (strip (10 # body @ [10]), False)" by simp
  moreover have "strip (10 # body @ [10]) = strip body"
    by (simp add: strip_leading strip_trailing is_space_newline)
  ultimately show ?thesis by simp
qed

lemma not_fence_lean: "\<not> sublist fence s \<Longrightarrow> \<not> str_in fence_lean s"
  using sublist_fence_fence_lean sublist_order.order.trans
  by (auto simp: str_in_sublist)

lemma extract_block_idem:
  "fst (extract_block (fst (extract_block raw))) = fst (extract_block raw)"
proof (cases "str_in fence_lean raw")
  case False
  then show ?thesis by (simp add: extract_block_unfenced)
next
  case True
  let ?start = "str_find raw fence_lean 0 + int (length fence_lean)"
  show ?thesis
  proof (cases "str_find raw fence ?start = - 1")
    case e: True
    from extract_block_unclosed [OF True e] show ?thesis by simp
  next
    case e: False
    from True have "find_from fence_lean raw 0 \<noteq> - 1"
      by (simp add: str_in_def str_find_0)
    from find_from_found [OF this] obtain p
      where o: "find_from fence_lean raw 0 = int (0 + p)" by blast
    from o [unfolded find_from_first] have "prefix fence_lean (drop p raw)" by simp
    then have "length fence_lean \<le> length (drop p raw)" by (rule prefix_length_le)
    then have len: "p + 7 \<le> length raw" by (simp add: length_fence_lean)
    from o have start: "?start = int (p + 7)"
      by (simp add: str_find_0 length_fence_lean)
    from len have "str_find raw fence (int (p + 7))
                   = find_from fence (drop (p + 7) raw) (p + 7)"
      by (simp add: str_find_from del: of_nat_add)
    with e start have "find_from fence (drop (p + 7) raw) (p + 7) \<noteq> - 1" by simp
    from find_from_found [OF this] obtain j
      where c: "find_from fence (drop (p + 7) raw) (p + 7) = int (p + 7 + j)" by blast
    let ?t = "strip (take j (drop (p + 7) raw))"
    note r = extract_block_found [OF o c]
    have "fence \<noteq> []" by (simp add: fence_codes)
    with c have "\<not> sublist fence (take j (drop (p + 7) raw))"
      by (rule find_from_not_before)
    moreover have "sublist ?t (take j (drop (p + 7) raw))" by (rule sublist_strip)
    ultimately have "\<not> sublist fence ?t"
      using sublist_order.order.trans by blast
    then have "extract_block ?t = (?t, False)"
      by (simp add: not_fence_lean extract_block_unfenced)
    with r show ?thesis by simp
  qed
qed

text \<open>
  C8, with the two results told apart. For a proof body without a triple backquote, the
  block returns the stripped body from the fenced body and the body itself, not stripped,
  from the unfenced body: the two agree exactly when the body has no whitespace at its
  ends. For every text, running the block on its own result gives that result again.
\<close>

theorem extract_block_fenced_or_not:
  assumes "\<not> str_in fence body"
  shows "fst (extract_block (fenced body)) = strip body
         \<and> fst (extract_block body) = body
         \<and> (fst (extract_block (fenced body)) = fst (extract_block body)) = (strip body = body)
         \<and> fst (extract_block (fst (extract_block raw))) = fst (extract_block raw)"
proof -
  from assms have "\<not> sublist fence body" by (simp add: str_in_sublist)
  then have "extract_block body = (body, False)"
    by (simp add: not_fence_lean extract_block_unfenced)
  with extract_block_fenced [OF assms] extract_block_idem [of raw] show ?thesis by simp
qed

section \<open>The extraction block on concrete texts\<close>

lemmas eval_defs = str_find_def str_in_def Let_def ascii_def fence_def fence_lean_def
  is_space_def strip_def

text \<open>Two blocks, with text before and between them.\<close>

theorem extract_block_first_of_two_witness:
  "str_find (pre_text @ fence_lean) fence_lean 0 = int (length pre_text)
   \<and> str_find (block_one @ fence) fence 0 = int (length block_one)
   \<and> extract_block (pre_text @ fence_lean @ block_one @ fence @ mid_text @ fence_lean
                      @ block_two @ fence @ [])
       = (ascii ''example : 1 + 1 = 2 := rfl'', False)"
proof -
  have h1: "str_find (pre_text @ fence_lean) fence_lean 0 = int (length pre_text)"
    by (simp add: eval_defs pre_text_def)
  have h2: "str_find (block_one @ fence) fence 0 = int (length block_one)"
    by (simp add: eval_defs block_one_def)
  have "strip block_one = ascii ''example : 1 + 1 = 2 := rfl''"
    by (simp add: eval_defs block_one_def)
  with h1 h2 extract_block_first_of_two [OF h1 h2, of mid_text block_two "[]"]
  show ?thesis by simp
qed

text \<open>The text of the specification, and a block that is never closed.\<close>

theorem extract_block_fallback_witness:
  "\<not> str_in fence_lean no_fences
   \<and> extract_block no_fences = (no_fences, False)
   \<and> str_in fence_lean unclosed_text
   \<and> str_find unclosed_text fence (str_find unclosed_text fence_lean 0 + int (length fence_lean)) = - 1
   \<and> extract_block unclosed_text = (unclosed_text, True)"
proof -
  have a: "\<not> str_in fence_lean no_fences"
    by (simp add: eval_defs no_fences_def)
  have b: "str_in fence_lean unclosed_text"
    by (simp add: eval_defs unclosed_text_def)
  have c: "str_find unclosed_text fence (str_find unclosed_text fence_lean 0 + int (length fence_lean)) = - 1"
    by (simp add: eval_defs unclosed_text_def)
  from a b c extract_block_fallback [of no_fences] extract_block_fallback [of unclosed_text]
  show ?thesis by simp
qed

text \<open>A body without whitespace at its ends, and the reply with one fenced block.\<close>

theorem extract_block_fenced_or_not_witness:
  "\<not> str_in fence body_trimmed
   \<and> fst (extract_block (fenced body_trimmed)) = body_trimmed
   \<and> fst (extract_block body_trimmed) = body_trimmed
   \<and> fst (extract_block (fst (extract_block reply_text))) = fst (extract_block reply_text)"
proof -
  have a: "\<not> str_in fence body_trimmed"
    by (simp add: eval_defs body_trimmed_def)
  have "strip body_trimmed = body_trimmed"
    by (simp add: eval_defs body_trimmed_def)
  with a extract_block_fenced_or_not [OF a, of reply_text] show ?thesis by simp
qed

text \<open>
  C8 does not hold for every body: a body that ends with a newline loses it when it comes
  fenced and keeps it when it comes unfenced.
\<close>

theorem fenced_body_is_stripped_unfenced_is_not:
  "fst (extract_block (fenced body_newline)) = body_trimmed
   \<and> fst (extract_block body_newline) = body_newline
   \<and> fst (extract_block (fenced body_newline)) \<noteq> fst (extract_block body_newline)"
proof -
  have a: "\<not> str_in fence body_newline"
    by (simp add: eval_defs body_newline_def)
  have s: "strip body_newline = body_trimmed"
    by (simp add: eval_defs body_newline_def body_trimmed_def)
  have n: "body_trimmed \<noteq> body_newline"
    by (simp add: body_newline_def body_trimmed_def)
  from a have "\<not> sublist fence body_newline" by (simp add: str_in_sublist)
  then have "extract_block body_newline = (body_newline, False)"
    by (simp add: not_fence_lean extract_block_unfenced)
  with extract_block_fenced [OF a] s n show ?thesis by simp
qed

end
